theory Spec2Isabelle
  imports Complex_Main "HOL-Library.Multiset"
begin

section \<open>Split candidates\<close>

text \<open>
  The module \<^verbatim>\<open>split_candidate_manager.py\<close> keeps the nodes that are ready to be split
  in a binary heap (Python's \<^verbatim>\<open>heapq\<close> on a list), ordered so that a candidate with
  the largest gain is at the root.

  \<^item> \<open>'m\<close> is the type of a sample-selection array (\<^verbatim>\<open>np.ndarray\<close>); the module only
    stores and returns it.
  \<^item> \<open>'g\<close> is the type of a gain. The module only compares gains, and the heap is
    meaningful only where that comparison is a linear order, so \<open>'g\<close> is any linearly
    ordered type. Python floats without NaN are one (a NaN never passes the caller's test
    \<^verbatim>\<open>max_gain > gamma\<close> that the source's comment on \<^verbatim>\<open>max_gain\<close> records).
\<close>

record ('m, 'g) SplitCandidateInfo =
  sample_selects :: 'm
  max_gain :: 'g
  split_bucket :: int

record ('m, 'g) SplitCandidate =
  node_index :: int
  info :: "('m, 'g) SplitCandidateInfo"

definition SplitCandidate_init ::
  "int \<Rightarrow> 'm \<Rightarrow> 'g \<Rightarrow> int \<Rightarrow> ('m, 'g) SplitCandidate" where
  "SplitCandidate_init ni ss mg sb =
     \<lparr>node_index = ni,
      info = \<lparr>sample_selects = ss, max_gain = mg, split_bucket = sb\<rparr>\<rparr>"

text \<open>\<^verbatim>\<open>__lt__\<close>: a candidate is "smaller" when its gain is larger.\<close>

definition SplitCandidate_lt ::
  "('m, 'g::linorder) SplitCandidate \<Rightarrow> ('m, 'g) SplitCandidate \<Rightarrow> bool" where
  "SplitCandidate_lt self other \<longleftrightarrow> max_gain (info self) > max_gain (info other)"

text \<open>\<^verbatim>\<open>__eq__\<close>: equality of gains only.\<close>

definition SplitCandidate_eq ::
  "('m, 'g) SplitCandidate \<Rightarrow> ('m, 'g) SplitCandidate \<Rightarrow> bool" where
  "SplitCandidate_eq self other \<longleftrightarrow> max_gain (info self) = max_gain (info other)"

abbreviation gain :: "('m, 'g) SplitCandidate \<Rightarrow> 'g" where
  "gain c \<equiv> max_gain (info c)"

section \<open>Python's \<^verbatim>\<open>heapq\<close> on a list of candidates\<close>

text \<open>
  The exceptions the module can raise: \<^verbatim>\<open>IndexError\<close> from \<^verbatim>\<open>list.pop\<close> on an empty
  list and from indexing a list or array out of range, \<^verbatim>\<open>AttributeError\<close> from calling
  a method on \<^verbatim>\<open>None\<close>.
\<close>

datatype error = IndexError | AttributeError

type_synonym ('m, 'g) heap = "('m, 'g) SplitCandidate list"

text \<open>
  \<^verbatim>\<open>_siftdown(heap, startpos, pos)\<close>: \<open>newitem = heap[pos]\<close>, then the loop that moves
  parents down while \<open>newitem < parent\<close>, then \<open>heap[pos] = newitem\<close>. Every caller
  passes \<open>pos < len(heap)\<close>, and the loop only reads below \<open>pos\<close>.
\<close>

function siftdown_loop ::
  "('m, 'g::linorder) heap \<Rightarrow> nat \<Rightarrow> nat \<Rightarrow> ('m, 'g) SplitCandidate \<Rightarrow> ('m, 'g) heap" where
  "siftdown_loop h startpos pos newitem =
     (if pos > startpos then
        (let parentpos = (pos - 1) div 2;
             parent = h ! parentpos
         in if SplitCandidate_lt newitem parent
            then siftdown_loop (h[pos := parent]) startpos parentpos newitem
            else h[pos := newitem])
      else h[pos := newitem])"
  by pat_completeness auto
termination
  by (relation "measure (\<lambda>(h, startpos, pos, newitem). pos)") auto

declare siftdown_loop.simps [simp del]

definition siftdown :: "('m, 'g::linorder) heap \<Rightarrow> nat \<Rightarrow> nat \<Rightarrow> ('m, 'g) heap" where
  "siftdown h startpos pos = siftdown_loop h startpos pos (h ! pos)"

text \<open>
  The loop of \<^verbatim>\<open>_siftup(heap, pos)\<close>: while the position has a child, move its
  smaller child (in the sense of \<^verbatim>\<open>__lt__\<close>) up and go on from that child. The source
  keeps \<open>childpos = 2*pos + 1\<close> in a variable; here it is recomputed at the head of
  the loop. The result is the list and the final (leaf) position.
\<close>

function siftup_loop ::
  "('m, 'g::linorder) heap \<Rightarrow> nat \<Rightarrow> nat \<Rightarrow> ('m, 'g) heap \<times> nat" where
  "siftup_loop h endpos pos =
     (let childpos = 2 * pos + 1
      in if childpos < endpos then
           (let rightpos = childpos + 1;
                childpos' = (if rightpos < endpos \<and>
                                \<not> SplitCandidate_lt (h ! childpos) (h ! rightpos)
                             then rightpos else childpos)
            in siftup_loop (h[pos := h ! childpos']) endpos childpos')
         else (h, pos))"
  by pat_completeness auto
termination
  by (relation "measure (\<lambda>(h, endpos, pos). endpos - pos)") auto

declare siftup_loop.simps [simp del]

definition siftup :: "('m, 'g::linorder) heap \<Rightarrow> nat \<Rightarrow> ('m, 'g) heap" where
  "siftup h pos =
     (let endpos = length h;
          startpos = pos;
          newitem = h ! pos;
          (h', pos') = siftup_loop h endpos pos
      in siftdown (h'[pos' := newitem]) startpos pos')"

definition heappush ::
  "('m, 'g::linorder) heap \<Rightarrow> ('m, 'g) SplitCandidate \<Rightarrow> ('m, 'g) heap" where
  "heappush h item = (let h' = h @ [item] in siftdown h' 0 (length h' - 1))"

text \<open>
  \<^verbatim>\<open>heappop\<close>: \<^verbatim>\<open>heap.pop()\<close> raises \<^verbatim>\<open>IndexError\<close> on the empty list, before anything
  is changed.
\<close>

definition heappop ::
  "('m, 'g::linorder) heap \<Rightarrow> error + (('m, 'g) SplitCandidate \<times> ('m, 'g) heap)" where
  "heappop h =
     (if h = [] then Inl IndexError
      else (let lastelt = last h; h1 = butlast h
            in if h1 \<noteq> [] then
                 (let returnitem = h1 ! 0; h2 = h1[0 := lastelt]
                  in Inr (returnitem, siftup h2 0))
               else Inr (lastelt, h1)))"

section \<open>\<^verbatim>\<open>SplitCandidateHeap\<close>\<close>

text \<open>
  The object has one attribute, the list \<^verbatim>\<open>heap\<close>; its state is that list. Each method
  returns the list after the call, together with the outcome where the method can raise.
\<close>

definition SplitCandidateHeap_init :: "('m, 'g) heap" where
  "SplitCandidateHeap_init = []"

definition push ::
  "('m, 'g::linorder) heap \<Rightarrow> int \<Rightarrow> 'm \<Rightarrow> 'g \<Rightarrow> int \<Rightarrow> ('m, 'g) heap" where
  "push h ni ss mg sb = heappush h (SplitCandidate_init ni ss mg sb)"

text \<open>
  \<^verbatim>\<open>batch_push\<close>: the loop over \<^verbatim>\<open>enumerate(gain_is_cost_effective)\<close>. Indexing one of
  the other four sequences at \<open>i \<ge> len\<close> raises \<^verbatim>\<open>IndexError\<close>; the pushes made before
  stay in the list.
\<close>

fun batch_push_loop ::
  "('m, 'g::linorder) heap \<Rightarrow> int list \<Rightarrow> 'm list \<Rightarrow> int list \<Rightarrow> 'g list \<Rightarrow>
   nat \<Rightarrow> bool list \<Rightarrow> (error + unit) \<times> ('m, 'g) heap" where
  "batch_push_loop h node_indices node_sample_selects split_buckets split_gains i [] =
     (Inr (), h)"
| "batch_push_loop h node_indices node_sample_selects split_buckets split_gains i
     (effective # rest) =
     (if effective then
        (if i < length node_indices \<and> i < length node_sample_selects \<and>
            i < length split_gains \<and> i < length split_buckets
         then batch_push_loop
                (push h (node_indices ! i) (node_sample_selects ! i)
                   (split_gains ! i) (split_buckets ! i))
                node_indices node_sample_selects split_buckets split_gains (Suc i) rest
         else (Inl IndexError, h))
      else batch_push_loop h node_indices node_sample_selects split_buckets split_gains
             (Suc i) rest)"

definition batch_push ::
  "('m, 'g::linorder) heap \<Rightarrow> int list \<Rightarrow> 'm list \<Rightarrow> int list \<Rightarrow> 'g list \<Rightarrow>
   bool list \<Rightarrow> (error + unit) \<times> ('m, 'g) heap" where
  "batch_push h node_indices node_sample_selects split_buckets split_gains
     gain_is_cost_effective =
     batch_push_loop h node_indices node_sample_selects split_buckets split_gains 0
       gain_is_cost_effective"

definition pop ::
  "('m, 'g::linorder) heap \<Rightarrow> (error + ('m, 'g) SplitCandidate) \<times> ('m, 'g) heap" where
  "pop h = (case heappop h of Inl e \<Rightarrow> (Inl e, h) | Inr (c, h') \<Rightarrow> (Inr c, h'))"

definition extract_best_split_info ::
  "('m, 'g::linorder) heap \<Rightarrow> (error + (int \<times> 'm \<times> int)) \<times> ('m, 'g) heap" where
  "extract_best_split_info h =
     (case pop h of
        (Inl e, h') \<Rightarrow> (Inl e, h')
      | (Inr best_candidate, h') \<Rightarrow>
          (Inr (node_index best_candidate,
                sample_selects (info best_candidate),
                split_bucket (info best_candidate)), h'))"

definition extract_all_nodes ::
  "('m, 'g) heap \<Rightarrow> (int list \<times> 'm list) \<times> ('m, 'g) heap" where
  "extract_all_nodes h =
     (let ids = map node_index h;
          sample_selects = map (\<lambda>candidate. sample_selects (info candidate)) h
      in ((ids, sample_selects), []))"

definition reset :: "('m, 'g) heap \<Rightarrow> ('m, 'g) heap" where
  "reset h = []"

section \<open>\<^verbatim>\<open>SplitCandidateManager\<close>\<close>

text \<open>
  The manager's three attributes are \<^verbatim>\<open>None\<close> after \<^verbatim>\<open>__init__\<close>. \<^verbatim>\<open>set_devices\<close>
  stores \<^verbatim>\<open>devices.label_holder\<close> (the class \<^verbatim>\<open>Devices\<close> is declared elsewhere, so
  the label holder itself is the argument here, of any type \<open>'d\<close>) and creates the
  heap object. Every other method calls a method of \<^verbatim>\<open>self.heap\<close>, which raises
  \<^verbatim>\<open>AttributeError\<close> while \<^verbatim>\<open>self.heap\<close> is \<^verbatim>\<open>None\<close>.
\<close>

record ('d, 'm, 'g) SplitCandidateManager =
  params :: "unit option"
  label_holder :: "'d option"
  heap :: "('m, 'g) heap option"

definition SplitCandidateManager_init :: "('d, 'm, 'g) SplitCandidateManager" where
  "SplitCandidateManager_init = \<lparr>params = None, label_holder = None, heap = None\<rparr>"

definition set_devices ::
  "('d, 'm, 'g) SplitCandidateManager \<Rightarrow> 'd \<Rightarrow> ('d, 'm, 'g) SplitCandidateManager" where
  "set_devices self devices_label_holder =
     self\<lparr>label_holder := Some devices_label_holder,
          heap := Some SplitCandidateHeap_init\<rparr>"

definition manager_batch_push ::
  "('d, 'm, 'g::linorder) SplitCandidateManager \<Rightarrow> int list \<Rightarrow> 'm list \<Rightarrow> int list \<Rightarrow>
   'g list \<Rightarrow> bool list \<Rightarrow> (error + unit) \<times> ('d, 'm, 'g) SplitCandidateManager" where
  "manager_batch_push self node_indices node_sample_selects split_buckets split_gains
     gain_is_cost_effective =
     (case heap self of
        None \<Rightarrow> (Inl AttributeError, self)
      | Some h \<Rightarrow>
          (case batch_push h node_indices node_sample_selects split_buckets split_gains
                  gain_is_cost_effective of
             (r, h') \<Rightarrow> (r, self\<lparr>heap := Some h'\<rparr>)))"

definition manager_push ::
  "('d, 'm, 'g::linorder) SplitCandidateManager \<Rightarrow> int \<Rightarrow> 'm \<Rightarrow> 'g \<Rightarrow> int \<Rightarrow>
   (error + unit) \<times> ('d, 'm, 'g) SplitCandidateManager" where
  "manager_push self ni ss mg sb =
     (case heap self of
        None \<Rightarrow> (Inl AttributeError, self)
      | Some h \<Rightarrow> (Inr (), self\<lparr>heap := Some (push h ni ss mg sb)\<rparr>))"

definition manager_extract_best_split_info ::
  "('d, 'm, 'g::linorder) SplitCandidateManager \<Rightarrow>
   (error + (int \<times> 'm \<times> int)) \<times> ('d, 'm, 'g) SplitCandidateManager" where
  "manager_extract_best_split_info self =
     (case heap self of
        None \<Rightarrow> (Inl AttributeError, self)
      | Some h \<Rightarrow>
          (case extract_best_split_info h of (r, h') \<Rightarrow> (r, self\<lparr>heap := Some h'\<rparr>)))"

definition manager_extract_all_nodes ::
  "('d, 'm, 'g) SplitCandidateManager \<Rightarrow>
   (error + (int list \<times> 'm list)) \<times> ('d, 'm, 'g) SplitCandidateManager" where
  "manager_extract_all_nodes self =
     (case heap self of
        None \<Rightarrow> (Inl AttributeError, self)
      | Some h \<Rightarrow>
          (case extract_all_nodes h of (r, h') \<Rightarrow> (Inr r, self\<lparr>heap := Some h'\<rparr>)))"

definition manager_reset ::
  "('d, 'm, 'g) SplitCandidateManager \<Rightarrow>
   (error + unit) \<times> ('d, 'm, 'g) SplitCandidateManager" where
  "manager_reset self =
     (case heap self of
        None \<Rightarrow> (Inl AttributeError, self)
      | Some h \<Rightarrow> (Inr (), self\<lparr>heap := Some (reset h)\<rparr>))"

section \<open>Histories of a heap object\<close>

text \<open>
  A history is a list of method calls on one \<^verbatim>\<open>SplitCandidateHeap\<close>, starting from the
  empty list of \<^verbatim>\<open>__init__\<close>. A call that raises leaves the list as the method left it.
\<close>

datatype ('m, 'g) heap_call =
    Push int 'm 'g int
  | BatchPush "int list" "'m list" "int list" "'g list" "bool list"
  | Pop
  | ExtractBestSplitInfo
  | ExtractAllNodes
  | Reset

fun call :: "('m, 'g::linorder) heap \<Rightarrow> ('m, 'g) heap_call \<Rightarrow> ('m, 'g) heap" where
  "call h (Push ni ss mg sb) = push h ni ss mg sb"
| "call h (BatchPush nis sss sbs mgs effs) = snd (batch_push h nis sss sbs mgs effs)"
| "call h Pop = snd (pop h)"
| "call h ExtractBestSplitInfo = snd (extract_best_split_info h)"
| "call h ExtractAllNodes = snd (extract_all_nodes h)"
| "call h Reset = reset h"

definition run :: "('m, 'g::linorder) heap_call list \<Rightarrow> ('m, 'g) heap" where
  "run calls = foldl call SplitCandidateHeap_init calls"

text \<open>
  Popping until the list is empty: \<open>pop_until_empty n h\<close> makes at most \<open>n\<close> calls of
  \<open>pop\<close> and stops at the first that raises; \<open>drain\<close> allows as many calls as the list
  has entries.
\<close>

fun pop_until_empty ::
  "nat \<Rightarrow> ('m, 'g::linorder) heap \<Rightarrow> ('m, 'g) SplitCandidate list" where
  "pop_until_empty 0 h = []"
| "pop_until_empty (Suc n) h =
     (case pop h of
        (Inl e, h') \<Rightarrow> []
      | (Inr c, h') \<Rightarrow> c # pop_until_empty n h')"

definition drain :: "('m, 'g::linorder) heap \<Rightarrow> ('m, 'g) SplitCandidate list" where
  "drain h = pop_until_empty (length h) h"

text \<open>
  The candidates that a call of \<^verbatim>\<open>batch_push\<close> is to admit: those at the indices below
  \<open>k\<close> whose flag is set.
\<close>

definition in_range :: "int list \<Rightarrow> 'm list \<Rightarrow> int list \<Rightarrow> 'g list \<Rightarrow> nat \<Rightarrow> bool" where
  "in_range nis sss sbs mgs i \<longleftrightarrow>
     i < length nis \<and> i < length sss \<and> i < length mgs \<and> i < length sbs"

definition admitted ::
  "int list \<Rightarrow> 'm list \<Rightarrow> int list \<Rightarrow> 'g list \<Rightarrow> bool list \<Rightarrow> nat \<Rightarrow> nat \<Rightarrow>
   ('m, 'g) SplitCandidate list" where
  "admitted nis sss sbs mgs effs i k =
     map (\<lambda>j. SplitCandidate_init (nis ! j) (sss ! j) (mgs ! j) (sbs ! j))
       (filter (\<lambda>j. effs ! j) [i..<k])"

text \<open>
  A call of \<^verbatim>\<open>batch_push\<close> whose five sequences are the columns of one list of rows
  (node index, sample selects, split bucket, gain, flag); permuting the rows permutes
  the five sequences together.
\<close>

definition batch_push_rows ::
  "('m, 'g::linorder) heap \<Rightarrow> (int \<times> 'm \<times> int \<times> 'g \<times> bool) list \<Rightarrow>
   (error + unit) \<times> ('m, 'g) heap" where
  "batch_push_rows h rows =
     batch_push h (map (\<lambda>(ni, ss, sb, mg, e). ni) rows) (map (\<lambda>(ni, ss, sb, mg, e). ss) rows)
       (map (\<lambda>(ni, ss, sb, mg, e). sb) rows) (map (\<lambda>(ni, ss, sb, mg, e). mg) rows)
       (map (\<lambda>(ni, ss, sb, mg, e). e) rows)"

section \<open>The heap invariant\<close>

text \<open>
  \<^verbatim>\<open>heapq\<close>'s invariant \<open>\<not> heap[i] < heap[(i-1)//2]\<close>, read with \<^verbatim>\<open>__lt__\<close>: no entry
  has a larger gain than its parent.
\<close>

definition heap_inv :: "('m, 'g::linorder) heap \<Rightarrow> bool" where
  "heap_inv h \<longleftrightarrow>
     (\<forall>i. 0 < i \<and> i < length h \<longrightarrow> gain (h ! i) \<le> gain (h ! ((i - 1) div 2)))"

text \<open>
  The invariant while an entry is being moved: position \<open>pos\<close> is a hole whose content
  does not count. Entries not next to the hole are ordered with their parents, and the
  children of the hole are ordered with the parent of the hole.
\<close>

definition hole_inv :: "('m, 'g::linorder) heap \<Rightarrow> nat \<Rightarrow> bool" where
  "hole_inv h pos \<longleftrightarrow>
     (\<forall>i. 0 < i \<and> i < length h \<and> i \<noteq> pos \<and> (i - 1) div 2 \<noteq> pos \<longrightarrow>
          gain (h ! i) \<le> gain (h ! ((i - 1) div 2))) \<and>
     (\<forall>i. 0 < i \<and> i < length h \<and> (i - 1) div 2 = pos \<and> 0 < pos \<longrightarrow>
          gain (h ! i) \<le> gain (h ! ((pos - 1) div 2)))"

section \<open>Index arithmetic\<close>

lemma parent_less: "0 < k \<Longrightarrow> (k - 1) div 2 < (k::nat)"
  by arith

lemma child_cases:
  "0 < i \<Longrightarrow> (i - 1) div 2 = pos \<longleftrightarrow> i = 2 * pos + 1 \<or> i = 2 * pos + 2"
  for i pos :: nat
  by arith

section \<open>\<^verbatim>\<open>_siftdown\<close> restores the invariant\<close>

lemma hole_inv_fill:
  assumes "hole_inv h pos" and "pos < length h"
    and ch: "\<forall>i. 0 < i \<and> i < length h \<and> (i - 1) div 2 = pos \<longrightarrow> gain (h ! i) \<le> gain x"
    and par: "pos = 0 \<or> gain x \<le> gain (h ! ((pos - 1) div 2))"
  shows "heap_inv (h[pos := x])"
  unfolding heap_inv_def
proof (intro allI impI)
  fix i assume i: "0 < i \<and> i < length (h[pos := x])"
  let ?g = "h[pos := x]"
  consider "i = pos" | "i \<noteq> pos" "(i - 1) div 2 = pos" | "i \<noteq> pos" "(i - 1) div 2 \<noteq> pos"
    by blast
  then show "gain (?g ! i) \<le> gain (?g ! ((i - 1) div 2))"
  proof cases
    case 1
    then have "(pos - 1) div 2 \<noteq> pos" using i by auto
    then show ?thesis using 1 i par assms(2) by simp
  next
    case 2
    then show ?thesis using i ch assms(2) by simp
  next
    case 3
    then show ?thesis using i assms(1) by (simp add: hole_inv_def)
  qed
qed

lemma hole_inv_move_up:
  assumes hi: "hole_inv h pos" and pl: "pos < length h" and p0: "0 < pos"
    and ch: "\<forall>i. 0 < i \<and> i < length h \<and> (i - 1) div 2 = pos \<longrightarrow> gain (h ! i) \<le> gain x"
    and lt: "gain (h ! ((pos - 1) div 2)) < gain x"
  shows "hole_inv (h[pos := h ! ((pos - 1) div 2)]) ((pos - 1) div 2)
       \<and> (\<forall>i. 0 < i \<and> i < length h \<and> (i - 1) div 2 = (pos - 1) div 2 \<longrightarrow>
              gain ((h[pos := h ! ((pos - 1) div 2)]) ! i) \<le> gain x)"
proof -
  let ?pp = "(pos - 1) div 2"
  let ?h = "h[pos := h ! ?pp]"
  have pp: "?pp < pos" using p0 by (rule parent_less)
  have A: "gain (?h ! i) \<le> gain (?h ! ((i - 1) div 2))"
    if "0 < i" "i < length h" "i \<noteq> ?pp" "(i - 1) div 2 \<noteq> ?pp" for i
  proof (cases "i = pos")
    case True then show ?thesis using that by simp
  next
    case False
    show ?thesis
    proof (cases "(i - 1) div 2 = pos")
      case True
      then have "gain (h ! i) \<le> gain (h ! ?pp)" using hi that p0 by (simp add: hole_inv_def)
      then show ?thesis using True False pl by simp
    next
      case F2: False
      then have "gain (h ! i) \<le> gain (h ! ((i - 1) div 2))"
        using hi that False by (simp add: hole_inv_def)
      then show ?thesis using F2 False by simp
    qed
  qed
  have sib: "gain (h ! i) \<le> gain (h ! ?pp)"
    if "0 < i" "i < length h" "(i - 1) div 2 = ?pp" "i \<noteq> pos" for i
  proof -
    have "i \<noteq> pos" "(i - 1) div 2 \<noteq> pos" using that pp by auto
    with hi that(1,2) have "gain (h ! i) \<le> gain (h ! ((i - 1) div 2))"
      unfolding hole_inv_def by blast
    then show ?thesis using that(3) by simp
  qed
  have B: "gain (?h ! i) \<le> gain (?h ! ((?pp - 1) div 2))"
    if "0 < i" "i < length h" "(i - 1) div 2 = ?pp" "0 < ?pp" for i
  proof -
    have ppp: "(?pp - 1) div 2 < ?pp" using that(4) by (rule parent_less)
    have up: "gain (h ! ?pp) \<le> gain (h ! ((?pp - 1) div 2))"
      using hi that pp pl ppp by (simp add: hole_inv_def)
    have "gain (?h ! i) \<le> gain (h ! ?pp)"
      using sib[of i] that pl by (cases "i = pos") simp_all
    moreover have "?h ! ((?pp - 1) div 2) = h ! ((?pp - 1) div 2)"
      using ppp pp by simp
    ultimately show ?thesis using up by simp
  qed
  have C: "gain (?h ! i) \<le> gain x"
    if "0 < i" "i < length h" "(i - 1) div 2 = ?pp" for i
  proof (cases "i = pos")
    case True then show ?thesis using lt pl by simp
  next
    case False
    then show ?thesis using sib[of i] that lt by simp
  qed
  show ?thesis unfolding hole_inv_def length_list_update using A B C by blast
qed

lemma siftdown_loop_heap_inv:
  "pos < length h \<Longrightarrow> hole_inv h pos \<Longrightarrow>
   (\<forall>i. 0 < i \<and> i < length h \<and> (i - 1) div 2 = pos \<longrightarrow> gain (h ! i) \<le> gain x) \<Longrightarrow>
   heap_inv (siftdown_loop h 0 pos x)"
proof (induction h "0::nat" pos x rule: siftdown_loop.induct)
  case (1 h pos newitem)
  let ?pp = "(pos - 1) div 2"
  show ?case
  proof (cases "pos > 0 \<and> SplitCandidate_lt newitem (h ! ?pp)")
    case True
    then have lt: "gain (h ! ?pp) < gain newitem" by (simp add: SplitCandidate_lt_def)
    have pp: "?pp < pos" using True by (intro parent_less) simp
    have p0: "0 < pos" using True by simp
    note mv = hole_inv_move_up[OF "1.prems"(2) "1.prems"(1) p0 "1.prems"(3) lt]
    have lt': "SplitCandidate_lt newitem (h ! ?pp)" using True by simp
    have ppl: "?pp < length (h[pos := h ! ?pp])" using pp "1.prems"(1) by simp
    have "heap_inv (siftdown_loop (h[pos := h ! ?pp]) 0 ?pp newitem)"
      using "1.hyps"[OF p0 refl refl lt' ppl] mv by simp
    then show ?thesis using True by (subst siftdown_loop.simps) (simp add: Let_def)
  next
    case False
    then have "pos = 0 \<or> gain newitem \<le> gain (h ! ?pp)"
      by (auto simp: SplitCandidate_lt_def)
    from hole_inv_fill[OF "1.prems"(2) "1.prems"(1) "1.prems"(3) this]
    show ?thesis using False by (subst siftdown_loop.simps) (auto simp add: Let_def)
  qed
qed

section \<open>\<^verbatim>\<open>_siftup\<close> moves the hole to a leaf\<close>

lemma hole_inv_update:
  assumes hi: "hole_inv h pos"
  shows "hole_inv (h[pos := x]) pos"
proof -
  let ?h = "h[pos := x]"
  have A: "gain (?h ! i) \<le> gain (?h ! ((i - 1) div 2))"
    if "0 < i" "i < length h" "i \<noteq> pos" "(i - 1) div 2 \<noteq> pos" for i
  proof -
    have "gain (h ! i) \<le> gain (h ! ((i - 1) div 2))"
      using hi that unfolding hole_inv_def by blast
    then show ?thesis using that(3,4) by simp
  qed
  have B: "gain (?h ! i) \<le> gain (?h ! ((pos - 1) div 2))"
    if "0 < i" "i < length h" "(i - 1) div 2 = pos" "0 < pos" for i
  proof -
    have "pos < i" using parent_less[OF that(1)] that(3) by simp
    moreover have "(pos - 1) div 2 < pos" using that(4) by (rule parent_less)
    moreover have "gain (h ! i) \<le> gain (h ! ((pos - 1) div 2))"
      using hi that unfolding hole_inv_def by blast
    ultimately show ?thesis by simp
  qed
  show ?thesis unfolding hole_inv_def length_list_update using A B by blast
qed

lemma hole_inv_move_down:
  assumes hi: "hole_inv h pos" and cl: "c < length h" and c0: "0 < c"
    and cp: "(c - 1) div 2 = pos"
    and sib: "\<forall>i. 0 < i \<and> i < length h \<and> (i - 1) div 2 = pos \<longrightarrow> gain (h ! i) \<le> gain (h ! c)"
  shows "hole_inv (h[pos := h ! c]) c"
proof -
  let ?h = "h[pos := h ! c]"
  have pc: "pos < c" using parent_less[OF c0] cp by simp
  then have pl: "pos < length h" using cl by simp
  have A: "gain (?h ! i) \<le> gain (?h ! ((i - 1) div 2))"
    if "0 < i" "i < length h" "i \<noteq> c" "(i - 1) div 2 \<noteq> c" for i
  proof (cases "i = pos")
    case True
    have "(pos - 1) div 2 \<noteq> pos" using parent_less[of pos] that(1) True by simp
    moreover have "gain (h ! c) \<le> gain (h ! ((pos - 1) div 2))"
      using hi c0 cl cp that(1) True unfolding hole_inv_def by blast
    ultimately show ?thesis using True pl by simp
  next
    case False
    show ?thesis
    proof (cases "(i - 1) div 2 = pos")
      case True
      then show ?thesis using sib that False pl by simp
    next
      case F2: False
      have "gain (h ! i) \<le> gain (h ! ((i - 1) div 2))"
        using hi that(1,2) False F2 unfolding hole_inv_def by blast
      then show ?thesis using False F2 by simp
    qed
  qed
  have B: "gain (?h ! i) \<le> gain (?h ! ((c - 1) div 2))"
    if "0 < i" "i < length h" "(i - 1) div 2 = c" for i
  proof -
    have "c < i" using parent_less[OF that(1)] that(3) by simp
    then have ip: "i \<noteq> pos" "(i - 1) div 2 \<noteq> pos" using pc that(3) by auto
    have "gain (h ! i) \<le> gain (h ! ((i - 1) div 2))"
      using hi that(1,2) ip unfolding hole_inv_def by blast
    then show ?thesis using ip that(3) cp pl by simp
  qed
  show ?thesis unfolding hole_inv_def length_list_update using A B by blast
qed

lemma siftup_loop_props:
  "endpos = length h \<Longrightarrow> pos < length h \<Longrightarrow> hole_inv h pos \<Longrightarrow>
   siftup_loop h endpos pos = (h', pos') \<Longrightarrow>
   length h' = length h \<and> pos' < length h \<and> hole_inv h' pos' \<and>
   \<not> 2 * pos' + 1 < length h \<and> mset (h'[pos' := x]) = mset (h[pos := x])"
proof (induction h endpos pos rule: siftup_loop.induct)
  case (1 h endpos pos)
  let ?l = "2 * pos + 1"
  let ?r = "?l + 1"
  show ?case
  proof (cases "?l < endpos")
    case False
    then have "siftup_loop h endpos pos = (h, pos)"
      by (subst siftup_loop.simps) (simp add: Let_def)
    then show ?thesis using "1.prems" False by simp
  next
    case True
    define c where "c = (if ?r < endpos \<and> \<not> SplitCandidate_lt (h ! ?l) (h ! ?r) then ?r else ?l)"
    have eq: "siftup_loop h endpos pos = siftup_loop (h[pos := h ! c]) endpos c"
      using True by (subst siftup_loop.simps) (simp add: Let_def c_def)
    have cl: "c < length h" using True "1.prems"(1) by (auto simp: c_def)
    have c0: "0 < c" by (simp add: c_def)
    have cp: "(c - 1) div 2 = pos" by (simp add: c_def)
    have pc: "pos < c" by (simp add: c_def)
    have sib: "\<forall>i. 0 < i \<and> i < length h \<and> (i - 1) div 2 = pos \<longrightarrow> gain (h ! i) \<le> gain (h ! c)"
    proof (intro allI impI)
      fix i assume i: "0 < i \<and> i < length h \<and> (i - 1) div 2 = pos"
      then have "i = ?l \<or> i = ?r" using child_cases[of i pos] by simp
      then show "gain (h ! i) \<le> gain (h ! c)"
        using i "1.prems"(1) by (auto simp: c_def SplitCandidate_lt_def)
    qed
    have hi: "hole_inv (h[pos := h ! c]) c"
      using hole_inv_move_down[OF "1.prems"(3) cl c0 cp sib] .
    have IH: "length h' = length (h[pos := h ! c]) \<and> pos' < length (h[pos := h ! c]) \<and>
        hole_inv h' pos' \<and> \<not> 2 * pos' + 1 < length (h[pos := h ! c]) \<and>
        mset (h'[pos' := x]) = mset (h[pos := h ! c, c := x])"
    proof (rule "1.IH"[OF refl True refl c_def])
      show "endpos = length (h[pos := h ! c])" using "1.prems"(1) by simp
      show "c < length (h[pos := h ! c])" using cl by simp
      show "hole_inv (h[pos := h ! c]) c" by (rule hi)
      show "siftup_loop (h[pos := h ! c]) endpos c = (h', pos')"
        using eq "1.prems"(4) by simp
    qed
    have "mset (h[pos := h ! c, c := x]) = mset (h[pos := x])"
      using pc cl by (simp add: mset_update)
    then show ?thesis using IH by simp
  qed
qed

section \<open>\<^verbatim>\<open>heappush\<close> and \<^verbatim>\<open>heappop\<close>\<close>

lemma siftdown_length: "length (siftdown h s pos) = length h"
proof -
  have "length (siftdown_loop h s pos x) = length h" for x
    by (induction h s pos x rule: siftdown_loop.induct)
       (subst siftdown_loop.simps, simp add: Let_def)
  then show ?thesis by (simp add: siftdown_def)
qed

lemma siftdown_loop_mset:
  "pos < length h \<Longrightarrow> mset (siftdown_loop h s pos x) = mset (h[pos := x])"
proof (induction h s pos x rule: siftdown_loop.induct)
  case (1 h startpos pos newitem)
  show ?case
  proof (cases "pos > startpos \<and> SplitCandidate_lt newitem (h ! ((pos - 1) div 2))")
    case True
    let ?pp = "(pos - 1) div 2"
    have pp: "?pp < pos" using True by (intro parent_less) simp
    then have ppl: "?pp < length h" using "1.prems" by simp
    have "mset (siftdown_loop h startpos pos newitem)
        = mset (siftdown_loop (h[pos := h ! ?pp]) startpos ?pp newitem)"
      using True by (subst siftdown_loop.simps) (simp add: Let_def)
    also have "\<dots> = mset (h[pos := h ! ?pp, ?pp := newitem])"
      using True ppl by (intro "1.IH") auto
    also have "\<dots> = mset (h[pos := newitem])"
      using pp ppl "1.prems" by (simp add: mset_update)
    finally show ?thesis .
  next
    case False
    then show ?thesis by (subst siftdown_loop.simps) (auto simp add: Let_def)
  qed
qed

lemma heap_inv_imp_hole_inv: "heap_inv h \<Longrightarrow> hole_inv h 0"
  unfolding heap_inv_def hole_inv_def by blast

lemma heappush_heap_inv:
  assumes "heap_inv h"
  shows "heap_inv (heappush h x)"
proof -
  let ?h = "h @ [x]"
  let ?n = "length h"
  have A: "gain (?h ! i) \<le> gain (?h ! ((i - 1) div 2))"
    if "0 < i" "i < length ?h" "i \<noteq> ?n" for i
  proof -
    have il: "i < ?n" using that by simp
    moreover have "(i - 1) div 2 < ?n" using parent_less[OF that(1)] il by simp
    ultimately show ?thesis using assms that(1) by (simp add: nth_append heap_inv_def)
  qed
  have nochild: "\<not> (0 < i \<and> i < length ?h \<and> (i - 1) div 2 = ?n)" for i
    using parent_less[of i] by auto
  have hi: "hole_inv ?h ?n"
    unfolding hole_inv_def using A nochild by blast
  have "heap_inv (siftdown_loop ?h 0 ?n x)"
    using nochild by (intro siftdown_loop_heap_inv hi) auto
  then show ?thesis by (simp add: heappush_def siftdown_def)
qed

lemma heappush_mset: "mset (heappush h x) = add_mset x (mset h)"
proof -
  have "mset (siftdown_loop (h @ [x]) 0 (length h) x) = mset ((h @ [x])[length h := x])"
    by (rule siftdown_loop_mset) simp
  then show ?thesis by (simp add: heappush_def siftdown_def)
qed

lemma siftup_0:
  assumes hi: "hole_inv h 0" and ne: "h \<noteq> []"
  shows "heap_inv (siftup h 0) \<and> mset (siftup h 0) = mset h"
proof -
  obtain h' pos' where sl: "siftup_loop h (length h) 0 = (h', pos')"
    by (cases "siftup_loop h (length h) 0") auto
  have l0: "0 < length h" using ne by simp
  note P = siftup_loop_props[OF refl l0 hi sl, of "h ! 0"]
  let ?g = "h'[pos' := h ! 0]"
  have pl: "pos' < length ?g" using P by simp
  have eq: "siftup h 0 = siftdown_loop ?g 0 pos' (h ! 0)"
    using sl P by (simp add: siftup_def siftdown_def Let_def)
  have leaf: "\<not> (0 < i \<and> i < length ?g \<and> (i - 1) div 2 = pos')" for i
    using P child_cases[of i pos'] by auto
  have "heap_inv (siftdown_loop ?g 0 pos' (h ! 0))"
  proof (rule siftdown_loop_heap_inv[OF pl])
    show "hole_inv ?g pos'" using P by (intro hole_inv_update) simp
    show "\<forall>i. 0 < i \<and> i < length ?g \<and> (i - 1) div 2 = pos' \<longrightarrow> gain (?g ! i) \<le> gain (h ! 0)"
      using leaf by blast
  qed
  moreover have "mset (siftdown_loop ?g 0 pos' (h ! 0)) = mset (?g[pos' := h ! 0])"
    using pl by (rule siftdown_loop_mset)
  moreover have "mset ?g = mset h" using P by simp
  ultimately show ?thesis using eq by simp
qed

lemma heap_inv_root:
  assumes "heap_inv h"
  shows "i < length h \<Longrightarrow> gain (h ! i) \<le> gain (h ! 0)"
proof (induction i rule: less_induct)
  case (less i)
  show ?case
  proof (cases "i = 0")
    case True then show ?thesis by simp
  next
    case False
    then have i0: "0 < i" by simp
    have pl: "(i - 1) div 2 < i" using i0 by (rule parent_less)
    have "gain (h ! i) \<le> gain (h ! ((i - 1) div 2))"
      using assms i0 less.prems unfolding heap_inv_def by blast
    also have "\<dots> \<le> gain (h ! 0)" using less.IH[OF pl] pl less.prems by simp
    finally show ?thesis .
  qed
qed

lemma heap_inv_butlast: "heap_inv h \<Longrightarrow> heap_inv (butlast h)"
proof -
  assume a: "heap_inv h"
  have "gain (butlast h ! i) \<le> gain (butlast h ! ((i - 1) div 2))"
    if "0 < i" "i < length (butlast h)" for i
  proof -
    have "(i - 1) div 2 < length (butlast h)" using parent_less[OF that(1)] that(2) by simp
    moreover have "i < length h" using that(2) by simp
    ultimately show ?thesis using a that by (simp add: nth_butlast heap_inv_def)
  qed
  then show ?thesis unfolding heap_inv_def by blast
qed

lemma heappop_empty: "heappop [] = Inl IndexError"
  by (simp add: heappop_def)

lemma heappop_nonempty: "h \<noteq> [] \<Longrightarrow> \<exists>c h'. heappop h = Inr (c, h')"
  by (simp add: heappop_def Let_def)

lemma heappop_props:
  assumes inv: "heap_inv h" and pop: "heappop h = Inr (c, h')"
  shows "heap_inv h' \<and> mset h = add_mset c (mset h') \<and> (\<forall>x \<in> set h. gain x \<le> gain c)"
proof -
  have ne: "h \<noteq> []" using pop by (auto simp: heappop_def)
  have top: "\<forall>x \<in> set h. gain x \<le> gain (h ! 0)"
    using heap_inv_root[OF inv] by (auto simp: in_set_conv_nth)
  have app: "h = butlast h @ [last h]" using ne by simp
  show ?thesis
  proof (cases "butlast h = []")
    case True
    then have "h = [last h]" using app by simp
    moreover have "c = last h" "h' = butlast h" using pop ne True by (auto simp: heappop_def Let_def)
    ultimately show ?thesis using True by (metis heap_inv_butlast inv mset.simps(1) mset.simps(2) nth_Cons_0 top)
  next
    case False
    let ?h1 = "butlast h"
    let ?h2 = "?h1[0 := last h]"
    have c: "c = ?h1 ! 0" and h': "h' = siftup ?h2 0"
      using pop ne False by (auto simp: heappop_def Let_def)
    have bl0: "0 < length (butlast h)" using False length_greater_0_conv by blast
    have c0: "c = h ! 0" using c bl0 by (simp add: nth_butlast)
    have hi: "hole_inv ?h2 0"
      by (intro hole_inv_update heap_inv_imp_hole_inv heap_inv_butlast inv)
    have ne2: "?h2 \<noteq> []" using False by simp
    note S = siftup_0[OF hi ne2]
    have "mset ?h2 = add_mset (last h) (mset ?h1 - {#?h1 ! 0#})"
      by (rule mset_update[OF bl0])
    moreover have "mset h = add_mset (last h) (mset ?h1)"
      using app by (metis mset.simps(2) mset_append union_mset_add_mset_right add.right_neutral mset.simps(1))
    moreover have "?h1 ! 0 \<in># mset ?h1" using bl0 nth_mem_mset by blast
    ultimately have "mset h = add_mset c (mset ?h2)" using c by simp
    then show ?thesis using S h' top c0 by simp
  qed
qed

section \<open>The methods keep the invariant\<close>

lemma push_heap_inv: "heap_inv h \<Longrightarrow> heap_inv (push h ni ss mg sb)"
  by (simp add: push_def heappush_heap_inv)

lemma push_mset: "mset (push h ni ss mg sb) = add_mset (SplitCandidate_init ni ss mg sb) (mset h)"
  by (simp add: push_def heappush_mset)

lemma pop_Inr: "pop h = (Inr c, h') \<longleftrightarrow> heappop h = Inr (c, h')"
  by (auto simp: pop_def split: sum.splits)

lemma pop_Inl: "fst (pop h) = Inl e \<longleftrightarrow> h = [] \<and> e = IndexError"
  by (auto simp: pop_def heappop_def Let_def split: sum.splits)

lemma pop_fail_unchanged: "fst (pop h) = Inl e \<Longrightarrow> snd (pop h) = h"
  by (auto simp: pop_def split: sum.splits)

lemma pop_heap_inv: "heap_inv h \<Longrightarrow> heap_inv (snd (pop h))"
proof (cases "heappop h")
  case (Inl e)
  assume "heap_inv h" then show ?thesis using Inl by (simp add: pop_def)
next
  case (Inr p)
  assume a: "heap_inv h"
  obtain c h' where "p = (c, h')" by (cases p)
  then show ?thesis using heappop_props[OF a, of c h'] Inr by (simp add: pop_def)
qed

lemma batch_push_loop_spec:
  "i \<le> length effs \<Longrightarrow> heap_inv h \<Longrightarrow>
   batch_push_loop h nis sss sbs mgs i (drop i effs) = (r, h') \<Longrightarrow>
   heap_inv h' \<and>
   ((r = Inr () \<and> (\<forall>j. i \<le> j \<and> j < length effs \<and> effs ! j \<longrightarrow> in_range nis sss sbs mgs j) \<and>
       mset h' = mset h + mset (admitted nis sss sbs mgs effs i (length effs)))
    \<or> (r = Inl IndexError \<and>
        (\<exists>k. i \<le> k \<and> k < length effs \<and> effs ! k \<and> \<not> in_range nis sss sbs mgs k \<and>
             (\<forall>j. i \<le> j \<and> j < k \<and> effs ! j \<longrightarrow> in_range nis sss sbs mgs j) \<and>
             mset h' = mset h + mset (admitted nis sss sbs mgs effs i k))))"
proof (induction "length effs - i" arbitrary: i h)
  case 0
  then have "i = length effs" by simp
  then show ?case using 0 by (auto simp: admitted_def)
next
  case (Suc n)
  then have il: "i < length effs" by simp
  have dr: "drop i effs = effs ! i # drop (Suc i) effs"
    using il by (simp add: Cons_nth_drop_Suc)
  have n: "n = length effs - Suc i" using Suc.hyps(2) by simp
  have sl: "Suc i \<le> length effs" using il by simp
  have upt: "[i..<length effs] = i # [Suc i..<length effs]" using il by (simp add: upt_conv_Cons)
  show ?case
  proof (cases "effs ! i")
    case False
    then have "batch_push_loop h nis sss sbs mgs (Suc i) (drop (Suc i) effs) = (r, h')"
      using Suc.prems(3) dr by simp
    note IH = Suc.hyps(1)[OF n sl Suc.prems(2) this]
    have adm: "admitted nis sss sbs mgs effs i k = admitted nis sss sbs mgs effs (Suc i) k"
      if "i < k" for k using that False by (simp add: admitted_def upt_conv_Cons)
    have all: "(\<forall>j. i \<le> j \<and> j < k \<and> effs ! j \<longrightarrow> in_range nis sss sbs mgs j)
       \<longleftrightarrow> (\<forall>j. Suc i \<le> j \<and> j < k \<and> effs ! j \<longrightarrow> in_range nis sss sbs mgs j)" for k
      using False by (metis Suc_leD Suc_leI le_neq_implies_less)
    from IH show ?thesis
    proof (elim conjE disjE exE)
      assume "heap_inv h'" "r = Inr ()"
        "\<forall>j. Suc i \<le> j \<and> j < length effs \<and> effs ! j \<longrightarrow> in_range nis sss sbs mgs j"
        "mset h' = mset h + mset (admitted nis sss sbs mgs effs (Suc i) (length effs))"
      then show ?thesis using adm[OF il] all[of "length effs"] by simp
    next
      fix k
      assume "heap_inv h'" "r = Inl IndexError" "Suc i \<le> k" "k < length effs" "effs ! k"
        "\<not> in_range nis sss sbs mgs k"
        "\<forall>j. Suc i \<le> j \<and> j < k \<and> effs ! j \<longrightarrow> in_range nis sss sbs mgs j"
        "mset h' = mset h + mset (admitted nis sss sbs mgs effs (Suc i) k)"
      then show ?thesis using adm[of k] all[of k]
        by (intro conjI disjI2 exI[of _ k]) auto
    qed
  next
    case True
    show ?thesis
    proof (cases "in_range nis sss sbs mgs i")
      case False
      then have "r = Inl IndexError" "h' = h"
        using Suc.prems(3) dr True by (auto simp: in_range_def)
      then show ?thesis using Suc.prems(2) True False il
        by (intro conjI disjI2 exI[of _ i]) (auto simp: admitted_def)
    next
      case ir: True
      let ?c = "SplitCandidate_init (nis ! i) (sss ! i) (mgs ! i) (sbs ! i)"
      let ?h = "push h (nis ! i) (sss ! i) (mgs ! i) (sbs ! i)"
      have "batch_push_loop ?h nis sss sbs mgs (Suc i) (drop (Suc i) effs) = (r, h')"
        using Suc.prems(3) dr True ir by (simp add: in_range_def)
      note IH = Suc.hyps(1)[OF n sl push_heap_inv[OF Suc.prems(2)] this]
      have adm: "mset (admitted nis sss sbs mgs effs i k)
               = add_mset ?c (mset (admitted nis sss sbs mgs effs (Suc i) k))"
        if "i < k" for k using that True by (simp add: admitted_def upt_conv_Cons)
      have all: "(\<forall>j. i \<le> j \<and> j < k \<and> effs ! j \<longrightarrow> in_range nis sss sbs mgs j)
         \<longleftrightarrow> (\<forall>j. Suc i \<le> j \<and> j < k \<and> effs ! j \<longrightarrow> in_range nis sss sbs mgs j)" for k
        using ir by (metis Suc_leD Suc_leI le_neq_implies_less)
      from IH show ?thesis
      proof (elim conjE disjE exE)
        assume "heap_inv h'" "r = Inr ()"
          "\<forall>j. Suc i \<le> j \<and> j < length effs \<and> effs ! j \<longrightarrow> in_range nis sss sbs mgs j"
          "mset h' = mset ?h + mset (admitted nis sss sbs mgs effs (Suc i) (length effs))"
        then show ?thesis using adm[OF il] all[of "length effs"] by (simp add: push_mset)
      next
        fix k
        assume "heap_inv h'" "r = Inl IndexError" "Suc i \<le> k" "k < length effs" "effs ! k"
          "\<not> in_range nis sss sbs mgs k"
          "\<forall>j. Suc i \<le> j \<and> j < k \<and> effs ! j \<longrightarrow> in_range nis sss sbs mgs j"
          "mset h' = mset ?h + mset (admitted nis sss sbs mgs effs (Suc i) k)"
        then show ?thesis using adm[of k] all[of k]
          by (intro conjI disjI2 exI[of _ k]) (auto simp: push_mset)
      qed
    qed
  qed
qed

lemma batch_push_spec:
  assumes "heap_inv h" and "batch_push h nis sss sbs mgs effs = (r, h')"
  shows "heap_inv h' \<and>
   ((r = Inr () \<and> (\<forall>j. j < length effs \<and> effs ! j \<longrightarrow> in_range nis sss sbs mgs j) \<and>
       mset h' = mset h + mset (admitted nis sss sbs mgs effs 0 (length effs)))
    \<or> (r = Inl IndexError \<and>
        (\<exists>k. k < length effs \<and> effs ! k \<and> \<not> in_range nis sss sbs mgs k \<and>
             (\<forall>j. j < k \<and> effs ! j \<longrightarrow> in_range nis sss sbs mgs j) \<and>
             mset h' = mset h + mset (admitted nis sss sbs mgs effs 0 k))))"
  using batch_push_loop_spec[of 0 effs h nis sss sbs mgs r h'] assms
  by (simp add: batch_push_def)

lemma extract_best_split_info_snd: "snd (extract_best_split_info h) = snd (pop h)"
  by (cases "pop h") (auto simp: extract_best_split_info_def split: sum.splits)

lemma heap_inv_Nil: "heap_inv []"
  by (simp add: heap_inv_def)

lemma call_heap_inv: "heap_inv h \<Longrightarrow> heap_inv (call h c)"
proof (cases c)
  case (BatchPush nis sss sbs mgs effs)
  assume a: "heap_inv h"
  obtain r h' where bp: "batch_push h nis sss sbs mgs effs = (r, h')"
    by (cases "batch_push h nis sss sbs mgs effs")
  show ?thesis using batch_push_spec[OF a bp] bp BatchPush by simp
qed (simp_all add: push_heap_inv pop_heap_inv extract_best_split_info_snd
       extract_all_nodes_def reset_def heap_inv_Nil)

lemma foldl_call_heap_inv: "heap_inv h \<Longrightarrow> heap_inv (foldl call h cs)"
  by (induction cs arbitrary: h) (simp_all add: call_heap_inv)

lemma run_heap_inv: "heap_inv (run cs)"
  by (simp add: run_def SplitCandidateHeap_init_def foldl_call_heap_inv heap_inv_Nil)

lemma pop_props:
  assumes "heap_inv h" and "pop h = (Inr c, h')"
  shows "heap_inv h' \<and> mset h = add_mset c (mset h') \<and> (\<forall>x \<in> set h. gain x \<le> gain c)"
  using heappop_props[OF assms(1)] assms(2) by (simp add: pop_Inr)

lemma pop_nonempty: "h \<noteq> [] \<Longrightarrow> \<exists>c h'. pop h = (Inr c, h')"
  using heappop_nonempty[of h] by (auto simp: pop_Inr)

lemma pop_until_empty_mset:
  "heap_inv h \<Longrightarrow> length h \<le> n \<Longrightarrow> mset (pop_until_empty n h) = mset h"
proof (induction n arbitrary: h)
  case 0
  then show ?case by simp
next
  case (Suc n)
  show ?case
  proof (cases "h = []")
    case True
    then show ?thesis by (simp add: pop_def heappop_def)
  next
    case False
    then obtain c h' where p: "pop h = (Inr c, h')" using pop_nonempty by blast
    note P = pop_props[OF Suc.prems(1) p]
    have "size (mset h) = Suc (size (mset h'))" using P by simp
    then have "length h' \<le> n" using Suc.prems(2) by simp
    then have "mset (pop_until_empty n h') = mset h'" using Suc.IH P by blast
    then show ?thesis using p P by simp
  qed
qed

lemma pop_until_empty_subset:
  "heap_inv h \<Longrightarrow> set (pop_until_empty n h) \<subseteq> set h"
proof (induction n arbitrary: h)
  case 0
  then show ?case by simp
next
  case (Suc n)
  show ?case
  proof (cases "pop h")
    case (Pair r h')
    show ?thesis
    proof (cases r)
      case (Inl e)
      then show ?thesis using Pair by simp
    next
      case (Inr c)
      then have p: "pop h = (Inr c, h')" using Pair by simp
      note P = pop_props[OF Suc.prems p]
      have "set h = insert c (set h')"
        using P by (metis set_mset_mset set_mset_add_mset_insert)
      moreover have "set (pop_until_empty n h') \<subseteq> set h'" using Suc.IH P by blast
      ultimately show ?thesis using p by auto
    qed
  qed
qed

lemma pop_until_empty_sorted:
  "heap_inv h \<Longrightarrow> sorted_wrt (\<ge>) (map gain (pop_until_empty n h))"
proof (induction n arbitrary: h)
  case 0
  then show ?case by simp
next
  case (Suc n)
  show ?case
  proof (cases "pop h")
    case (Pair r h')
    show ?thesis
    proof (cases r)
      case (Inl e)
      then show ?thesis using Pair by simp
    next
      case (Inr c)
      then have p: "pop h = (Inr c, h')" using Pair by simp
      note P = pop_props[OF Suc.prems p]
      have "set (pop_until_empty n h') \<subseteq> set h'"
        using pop_until_empty_subset P by blast
      moreover have "set h' \<subseteq> set h"
        using P by (metis set_mset_mset set_mset_add_mset_insert subset_insertI)
      ultimately have sub: "set (pop_until_empty n h') \<subseteq> set h" by blast
      have "sorted_wrt (\<ge>) (map gain (pop_until_empty n h'))" using Suc.IH P by blast
      moreover have "\<forall>x \<in> set (pop_until_empty n h'). gain x \<le> gain c"
        using sub P by blast
      ultimately show ?thesis using p by simp
    qed
  qed
qed

section \<open>Further facts about the methods\<close>

lemma drain_mset: "heap_inv h \<Longrightarrow> mset (drain h) = mset h"
  unfolding drain_def by (rule pop_until_empty_mset) simp_all

lemma extract_best_split_info_Inr:
  "extract_best_split_info h = (Inr t, h') \<longleftrightarrow>
   (\<exists>c. pop h = (Inr c, h') \<and> t = (node_index c, sample_selects (info c), split_bucket (info c)))"
  by (cases "pop h") (auto simp: extract_best_split_info_def split: sum.splits)

lemma extract_best_split_info_fst_Inl:
  "fst (extract_best_split_info h) = Inl e \<longleftrightarrow> fst (pop h) = Inl e"
  by (cases "pop h") (auto simp: extract_best_split_info_def split: sum.splits)

lemma extract_all_nodes_zip:
  "zip (fst (fst (extract_all_nodes h))) (snd (fst (extract_all_nodes h)))
   = map (\<lambda>c. (node_index c, sample_selects (info c))) h"
  by (induction h) (simp_all add: extract_all_nodes_def)

lemma set_devices_binds:
  "heap (set_devices self d) = Some [] \<and>
   fst (manager_push (set_devices self d) ni ss mg sb) = Inr () \<and>
   fst (manager_reset (set_devices self d)) = Inr ()"
  by (simp add: set_devices_def SplitCandidateHeap_init_def manager_push_def manager_reset_def)

lemma foldl_call_Push_mset:
  "mset (foldl call h (map (\<lambda>(ni, ss, mg, sb). Push ni ss mg sb) recs))
   = mset h + mset (map (\<lambda>(ni, ss, mg, sb). SplitCandidate_init ni ss mg sb) recs)"
  by (induction recs arbitrary: h) (auto simp: push_mset)

lemma admitted_rows:
  "admitted (map (\<lambda>(ni, ss, sb, mg, e). ni) rows) (map (\<lambda>(ni, ss, sb, mg, e). ss) rows)
       (map (\<lambda>(ni, ss, sb, mg, e). sb) rows) (map (\<lambda>(ni, ss, sb, mg, e). mg) rows)
       (map (\<lambda>(ni, ss, sb, mg, e). e) rows) 0 (length rows)
   = map (\<lambda>(ni, ss, sb, mg, e). SplitCandidate_init ni ss mg sb)
       (filter (\<lambda>(ni, ss, sb, mg, e). e) rows)"
proof -
  let ?F = "\<lambda>(ni, ss, sb, mg, e). SplitCandidate_init ni ss mg sb"
  let ?P = "\<lambda>(ni, ss, sb, mg, e). e"
  have rows: "map ((!) rows) [0..<length rows] = rows" by (rule map_nth)
  have "map ?F (filter ?P rows) = map ?F (filter ?P (map ((!) rows) [0..<length rows]))"
    by (simp only: rows)
  also have "\<dots> = map (?F \<circ> (!) rows) (filter (?P \<circ> (!) rows) [0..<length rows])"
    by (simp only: filter_map map_map)
  also have "\<dots> = admitted (map (\<lambda>(ni, ss, sb, mg, e). ni) rows)
       (map (\<lambda>(ni, ss, sb, mg, e). ss) rows)
       (map (\<lambda>(ni, ss, sb, mg, e). sb) rows) (map (\<lambda>(ni, ss, sb, mg, e). mg) rows)
       (map (\<lambda>(ni, ss, sb, mg, e). e) rows) 0 (length rows)"
    unfolding admitted_def
    by (intro map_cong filter_cong refl) (auto split: prod.splits)
  finally show ?thesis by simp
qed

lemma batch_push_rows_spec:
  assumes "heap_inv h"
  shows "heap_inv (snd (batch_push_rows h rows)) \<and>
    mset (snd (batch_push_rows h rows))
      = mset h + mset (map (\<lambda>(ni, ss, sb, mg, e). SplitCandidate_init ni ss mg sb)
                         (filter (\<lambda>(ni, ss, sb, mg, e). e) rows))"
proof -
  let ?nis = "map (\<lambda>(ni, ss, sb, mg, e). ni) rows"
  let ?sss = "map (\<lambda>(ni, ss, sb, mg, e). ss) rows"
  let ?sbs = "map (\<lambda>(ni, ss, sb, mg, e). sb) rows"
  let ?mgs = "map (\<lambda>(ni, ss, sb, mg, e). mg) rows"
  let ?effs = "map (\<lambda>(ni, ss, sb, mg, e). e) rows"
  obtain r h1 where bp: "batch_push h ?nis ?sss ?sbs ?mgs ?effs = (r, h1)"
    by (cases "batch_push h ?nis ?sss ?sbs ?mgs ?effs")
  note S = batch_push_spec[OF assms bp]
  have "\<not> (\<exists>k. k < length ?effs \<and> ?effs ! k \<and> \<not> in_range ?nis ?sss ?sbs ?mgs k)"
    by (simp add: in_range_def)
  then have "mset h1 = mset h + mset (admitted ?nis ?sss ?sbs ?mgs ?effs 0 (length ?effs))"
    using S by blast
  then have "mset h1 = mset h + mset (map (\<lambda>(ni, ss, sb, mg, e). SplitCandidate_init ni ss mg sb)
                         (filter (\<lambda>(ni, ss, sb, mg, e). e) rows))"
    using admitted_rows[of rows] by simp
  moreover have "heap_inv h1" using S by blast
  ultimately show ?thesis using bp by (simp add: batch_push_rows_def)
qed

lemma drain_sorted: "heap_inv h \<Longrightarrow> sorted_wrt (\<ge>) (map gain (drain h))"
  unfolding drain_def by (rule pop_until_empty_sorted)

lemma sorted_desc_unique:
  fixes xs ys :: "'a::linorder list"
  assumes "sorted_wrt (\<ge>) xs" and "sorted_wrt (\<ge>) ys" and "mset xs = mset ys"
  shows "xs = ys"
proof -
  have "sorted (rev xs)" "sorted (rev ys)"
    using assms(1,2) by (simp_all add: sorted_wrt_rev)
  moreover have "mset (rev xs) = mset (rev ys)" using assms(3) by simp
  ultimately have "rev xs = rev ys"
    by (metis properties_for_sort)
  then show ?thesis by simp
qed

lemma drain_gains_determined:
  assumes "heap_inv h1" and "heap_inv h2" and "mset h1 = mset h2"
  shows "map gain (drain h1) = map gain (drain h2)"
proof (rule sorted_desc_unique)
  show "sorted_wrt (\<ge>) (map gain (drain h1))" using assms(1) by (rule drain_sorted)
  show "sorted_wrt (\<ge>) (map gain (drain h2))" using assms(2) by (rule drain_sorted)
  have "mset (drain h1) = mset (drain h2)"
    using drain_mset[OF assms(1)] drain_mset[OF assms(2)] assms(3) by simp
  then show "mset (map gain (drain h1)) = mset (map gain (drain h2))"
    by (metis mset_map)
qed

lemma drain_determined_distinct:
  assumes "heap_inv h1" and "heap_inv h2" and "mset h1 = mset h2"
    and "distinct (map gain (drain h1))"
  shows "drain h1 = drain h2"
proof -
  have g: "map gain (drain h1) = map gain (drain h2)"
    using assms(1-3) by (rule drain_gains_determined)
  have "set (drain h1) = set (drain h2)"
    using drain_mset[OF assms(1)] drain_mset[OF assms(2)] assms(3) by (metis set_mset_mset)
  moreover have "inj_on gain (set (drain h1))" using assms(4) by (simp add: distinct_map)
  ultimately have "inj_on gain (set (drain h1) \<union> set (drain h2))" by simp
  then show ?thesis using g by (simp add: inj_on_map_eq_map)
qed

section \<open>The claims\<close>

text \<open>
  C1. After any history of calls, a successful \<open>pop\<close> returns a stored candidate whose
  gain is the largest among the stored candidates and removes exactly that candidate;
  \<open>pop\<close> succeeds whenever a candidate is stored. Popping until empty returns every
  stored candidate, in an order of non-increasing gains.
\<close>

theorem pop_returns_max_gain:
  "(run calls \<noteq> [] \<longrightarrow> (\<exists>c h'. pop (run calls) = (Inr c, h'))) \<and>
   (pop (run calls) = (Inr c, h') \<longrightarrow>
      c \<in> set (run calls) \<and> (\<forall>x \<in> set (run calls). gain x \<le> gain c) \<and>
      mset (run calls) = add_mset c (mset h')) \<and>
   sorted_wrt (\<ge>) (map gain (drain (run calls))) \<and>
   mset (drain (run calls)) = mset (run calls)"
proof (intro conjI impI)
  show "\<exists>c h'. pop (run calls) = (Inr c, h')" if "run calls \<noteq> []"
    using that by (rule pop_nonempty)
next
  assume p: "pop (run calls) = (Inr c, h')"
  note P = pop_props[OF run_heap_inv p]
  show "c \<in> set (run calls)" using P by (metis set_mset_mset union_single_eq_member)
  show "\<forall>x \<in> set (run calls). gain x \<le> gain c" using P by blast
  show "mset (run calls) = add_mset c (mset h')" using P by blast
next
  show "sorted_wrt (\<ge>) (map gain (drain (run calls)))"
    unfolding drain_def by (rule pop_until_empty_sorted[OF run_heap_inv])
  show "mset (drain (run calls)) = mset (run calls)"
    unfolding drain_def by (rule pop_until_empty_mset[OF run_heap_inv]) simp
qed

theorem pop_returns_max_gain_witness:
  "length (run [Push 1 [True, False, True] (8 / 10 :: real) 3,
                Push 2 [False, True, False] (15 / 10) 1,
                Push 3 [True, True, False] (15 / 10) 2]) = 3 \<and>
   pop (run [Push 1 [True, False, True] (8 / 10 :: real) 3,
             Push 2 [False, True, False] (15 / 10) 1,
             Push 3 [True, True, False] (15 / 10) 2])
     = (Inr (SplitCandidate_init 2 [False, True, False] (15 / 10) 1),
        [SplitCandidate_init 3 [True, True, False] (15 / 10) 2,
         SplitCandidate_init 1 [True, False, True] (8 / 10) 3]) \<and>
   SplitCandidate_init 2 [False, True, False] (15 / 10) 1
     \<in> set (run [Push 1 [True, False, True] (8 / 10 :: real) 3,
                 Push 2 [False, True, False] (15 / 10) 1,
                 Push 3 [True, True, False] (15 / 10) 2]) \<and>
   mset (run [Push 1 [True, False, True] (8 / 10 :: real) 3,
              Push 2 [False, True, False] (15 / 10) 1,
              Push 3 [True, True, False] (15 / 10) 2])
     = add_mset (SplitCandidate_init 2 [False, True, False] (15 / 10) 1)
         (mset [SplitCandidate_init 3 [True, True, False] (15 / 10) 2,
                SplitCandidate_init 1 [True, False, True] (8 / 10) 3]) \<and>
   sorted_wrt (\<ge>)
     (map gain (drain (run [Push 1 [True, False, True] (8 / 10 :: real) 3,
                            Push 2 [False, True, False] (15 / 10) 1,
                            Push 3 [True, True, False] (15 / 10) 2])))"
proof -
  let ?calls = "[Push 1 [True, False, True] (8 / 10 :: real) 3,
                 Push 2 [False, True, False] (15 / 10) 1,
                 Push 3 [True, True, False] (15 / 10) 2]"
  let ?c = "SplitCandidate_init 2 [False, True, False] (15 / 10 :: real) 1"
  let ?h' = "[SplitCandidate_init 3 [True, True, False] (15 / 10 :: real) 2,
              SplitCandidate_init 1 [True, False, True] (8 / 10) 3]"
  have len: "length (run ?calls) = 3" by code_simp
  have p: "pop (run ?calls) = (Inr ?c, ?h')" by code_simp
  show ?thesis using len p pop_returns_max_gain[of ?calls ?c ?h'] by blast
qed

text \<open>
  C2. When the five sequences of a \<^verbatim>\<open>batch_push\<close> have the same length, the call
  succeeds and stores exactly the candidates at the indices whose flag is set, each once:
  the stored multiset grows by \<open>admitted \<dots> 0 (length effs)\<close>. Whatever a later
  \<open>pop\<close>, \<open>extract_best_split_info\<close>, popping until empty or \<open>extract_all_nodes\<close>
  returns is a candidate stored before the call or one of those admitted, so a candidate
  whose flag is not set is never returned on account of this call.
\<close>

theorem batch_push_admits_flagged:
  assumes "length nis = length effs" and "length sss = length effs"
    and "length sbs = length effs" and "length mgs = length effs"
  shows "fst (batch_push (run calls) nis sss sbs mgs effs) = Inr () \<and>
    mset (snd (batch_push (run calls) nis sss sbs mgs effs))
      = mset (run calls) + mset (admitted nis sss sbs mgs effs 0 (length effs)) \<and>
    mset (drain (snd (batch_push (run calls) nis sss sbs mgs effs)))
      = mset (run calls) + mset (admitted nis sss sbs mgs effs 0 (length effs)) \<and>
    (pop (snd (batch_push (run calls) nis sss sbs mgs effs)) = (Inr c, h'') \<longrightarrow>
       c \<in># mset (run calls) + mset (admitted nis sss sbs mgs effs 0 (length effs))) \<and>
    (extract_best_split_info (snd (batch_push (run calls) nis sss sbs mgs effs)) = (Inr t, h'') \<longrightarrow>
       (\<exists>c. c \<in># mset (run calls) + mset (admitted nis sss sbs mgs effs 0 (length effs)) \<and>
            t = (node_index c, sample_selects (info c), split_bucket (info c)))) \<and>
    mset (zip (fst (fst (extract_all_nodes (snd (batch_push (run calls) nis sss sbs mgs effs)))))
              (snd (fst (extract_all_nodes (snd (batch_push (run calls) nis sss sbs mgs effs))))))
      = image_mset (\<lambda>c. (node_index c, sample_selects (info c)))
          (mset (run calls) + mset (admitted nis sss sbs mgs effs 0 (length effs)))"
proof -
  let ?M = "mset (run calls) + mset (admitted nis sss sbs mgs effs 0 (length effs))"
  obtain r h1 where bp: "batch_push (run calls) nis sss sbs mgs effs = (r, h1)"
    by (cases "batch_push (run calls) nis sss sbs mgs effs")
  note S = batch_push_spec[OF run_heap_inv bp]
  have inv: "heap_inv h1" using S by blast
  have "\<not> (\<exists>k. k < length effs \<and> effs ! k \<and> \<not> in_range nis sss sbs mgs k)"
    using assms by (simp add: in_range_def)
  then have r: "r = Inr ()" and m: "mset h1 = ?M" using S by blast+
  have d: "mset (drain h1) = ?M" using drain_mset[OF inv] m by simp
  have p: "c \<in># ?M" if "pop h1 = (Inr c, h'')" for c h''
    using pop_props[OF inv that] m by (metis union_single_eq_member)
  have e: "\<exists>c. c \<in># ?M \<and> t = (node_index c, sample_selects (info c), split_bucket (info c))"
    if "extract_best_split_info h1 = (Inr t, h'')"
    using that p unfolding extract_best_split_info_Inr by blast
  have z: "mset (zip (fst (fst (extract_all_nodes h1))) (snd (fst (extract_all_nodes h1))))
      = image_mset (\<lambda>c. (node_index c, sample_selects (info c))) ?M"
    unfolding m[symmetric] extract_all_nodes_zip by simp
  show ?thesis using r m d p e z unfolding bp by simp
qed

theorem batch_push_admits_flagged_witness:
  "length [10 :: int, 11] = length [True, False] \<and>
   fst (batch_push (run []) [10, 11] [[True, False], [False, True]] [0, 1]
          [2 :: real, 1 / 10] [True, False]) = Inr () \<and>
   mset (snd (batch_push (run []) [10, 11] [[True, False], [False, True]] [0, 1]
                [2 :: real, 1 / 10] [True, False]))
     = mset (run []) +
       mset (admitted [10, 11] [[True, False], [False, True]] [0, 1] [2 :: real, 1 / 10]
               [True, False] 0 (length [True, False])) \<and>
   snd (batch_push (run []) [10, 11] [[True, False], [False, True]] [0, 1]
          [2 :: real, 1 / 10] [True, False])
     = [SplitCandidate_init 10 [True, False] 2 0]"
proof -
  note T = batch_push_admits_flagged[where nis = "[10, 11]"
      and sss = "[[True, False], [False, True]]" and sbs = "[0, 1]"
      and mgs = "[2 :: real, 1 / 10]" and effs = "[True, False]" and calls = "[]"]
  have e: "snd (batch_push (run []) [10, 11] [[True, False], [False, True]] [0, 1]
                  [2 :: real, 1 / 10] [True, False])
           = [SplitCandidate_init 10 [True, False] 2 0]"
    by code_simp
  show ?thesis using T e by simp
qed

text \<open>
  C3 as stated fails: \<^verbatim>\<open>batch_push\<close> makes no check of the lengths. With one flag and
  two entries in each of the other sequences the call succeeds.
\<close>

theorem batch_push_unequal_lengths_counterexample:
  "length [True] < length [10 :: int, 11] \<and>
   batch_push SplitCandidateHeap_init [10, 11] [[True, False], [False, True]] [0, 1]
     [2 :: real, 1 / 10] [True]
   = (Inr (), [SplitCandidate_init 10 [True, False] 2 0])"
  by (simp add: batch_push_def push_def heappush_def siftdown_def siftdown_loop.simps
        SplitCandidateHeap_init_def)

text \<open>
  C3, amended. \<^verbatim>\<open>batch_push\<close> raises (an \<^verbatim>\<open>IndexError\<close>) exactly when some flag is
  set at an index that is out of range for one of the other four sequences; otherwise
  it succeeds, whatever the lengths are.
\<close>

theorem batch_push_fails_iff:
  "(fst (batch_push (run calls) nis sss sbs mgs effs) = Inl IndexError) =
     (\<exists>k. k < length effs \<and> effs ! k \<and> \<not> in_range nis sss sbs mgs k) \<and>
   (fst (batch_push (run calls) nis sss sbs mgs effs) = Inr ()) =
     (\<forall>k. k < length effs \<and> effs ! k \<longrightarrow> in_range nis sss sbs mgs k)"
proof -
  obtain r h1 where bp: "batch_push (run calls) nis sss sbs mgs effs = (r, h1)"
    by (cases "batch_push (run calls) nis sss sbs mgs effs")
  note S = batch_push_spec[OF run_heap_inv bp]
  show ?thesis unfolding bp using S by auto
qed

theorem batch_push_fails_iff_witness:
  "fst (batch_push (run []) [10] [[True]] [0] [2 :: real] [True, True]) = Inl IndexError \<and>
   fst (batch_push (run []) [10, 11] [[True], [False]] [0, 1] [2 :: real, 3] [True]) = Inr ()"
proof -
  have a: "(1::nat) < length [True, True] \<and> [True, True] ! 1 \<and>
           \<not> in_range [10] [[True]] [0] [2 :: real] 1"
    by (simp add: in_range_def)
  have b: "in_range [10, 11] [[True], [False]] [0, 1] [2 :: real, 3] k"
    if "k < length [True]" for k
    using that by (simp add: in_range_def)
  show ?thesis
    using a b
      batch_push_fails_iff[of "[]" "[10]" "[[True]]" "[0]" "[2 :: real]" "[True, True]"]
      batch_push_fails_iff[of "[]" "[10, 11]" "[[True], [False]]" "[0, 1]" "[2 :: real, 3]" "[True]"]
    by blast
qed

text \<open>
  C4 as stated fails: a \<^verbatim>\<open>batch_push\<close> that raises has already pushed the candidates
  admitted before the index at which it raises.
\<close>

theorem failed_batch_push_counterexample:
  "batch_push SplitCandidateHeap_init [10] [[True]] [0] [2 :: real] [True, True]
   = (Inl IndexError, [SplitCandidate_init 10 [True] 2 0]) \<and>
   mset [SplitCandidate_init 10 [True] (2 :: real) 0] \<noteq> mset SplitCandidateHeap_init"
  by (simp add: batch_push_def push_def heappush_def siftdown_def siftdown_loop.simps
        SplitCandidateHeap_init_def)

text \<open>
  C4, amended. A \<open>pop\<close> or \<open>extract_best_split_info\<close> that raises leaves the list as
  it was. A \<^verbatim>\<open>batch_push\<close> that raises does so at the first index \<open>k\<close> whose flag is
  set and which is out of range, and leaves the stored candidates of before together
  with those admitted at the indices below \<open>k\<close>.
\<close>

theorem failed_call_state:
  "(fst (pop h) = Inl e \<longrightarrow> snd (pop h) = h) \<and>
   (fst (extract_best_split_info h) = Inl e \<longrightarrow> snd (extract_best_split_info h) = h) \<and>
   (fst (batch_push (run calls) nis sss sbs mgs effs) = Inl e \<longrightarrow>
      (\<exists>k. k < length effs \<and> effs ! k \<and> \<not> in_range nis sss sbs mgs k \<and>
           (\<forall>j. j < k \<and> effs ! j \<longrightarrow> in_range nis sss sbs mgs j) \<and>
           mset (snd (batch_push (run calls) nis sss sbs mgs effs))
             = mset (run calls) + mset (admitted nis sss sbs mgs effs 0 k)))"
proof (intro conjI impI)
  show "snd (pop h) = h" if "fst (pop h) = Inl e"
    using that by (rule pop_fail_unchanged)
  show "snd (extract_best_split_info h) = h" if "fst (extract_best_split_info h) = Inl e"
    using that pop_fail_unchanged[of h e]
    by (simp add: extract_best_split_info_fst_Inl extract_best_split_info_snd)
next
  assume f: "fst (batch_push (run calls) nis sss sbs mgs effs) = Inl e"
  obtain r h1 where bp: "batch_push (run calls) nis sss sbs mgs effs = (r, h1)"
    by (cases "batch_push (run calls) nis sss sbs mgs effs")
  note S = batch_push_spec[OF run_heap_inv bp]
  have "r \<noteq> Inr ()" using f bp by auto
  then show "\<exists>k. k < length effs \<and> effs ! k \<and> \<not> in_range nis sss sbs mgs k \<and>
           (\<forall>j. j < k \<and> effs ! j \<longrightarrow> in_range nis sss sbs mgs j) \<and>
           mset (snd (batch_push (run calls) nis sss sbs mgs effs))
             = mset (run calls) + mset (admitted nis sss sbs mgs effs 0 k)"
    unfolding bp using S by auto
qed

theorem failed_call_state_witness:
  "fst (pop ([] :: (bool list, real) heap)) = Inl IndexError \<and>
   snd (pop ([] :: (bool list, real) heap)) = [] \<and>
   fst (extract_best_split_info ([] :: (bool list, real) heap)) = Inl IndexError \<and>
   snd (extract_best_split_info ([] :: (bool list, real) heap)) = [] \<and>
   fst (batch_push (run []) [10] [[True]] [0] [2 :: real] [True, True]) = Inl IndexError \<and>
   snd (batch_push (run []) [10] [[True]] [0] [2 :: real] [True, True])
     = [SplitCandidate_init 10 [True] 2 0]"
proof -
  have s: "snd (batch_push (run []) [10] [[True]] [0] [2 :: real] [True, True])
     = [SplitCandidate_init 10 [True] 2 0]"
    by code_simp
  have p: "fst (pop ([] :: (bool list, real) heap)) = Inl IndexError" by code_simp
  have x: "fst (extract_best_split_info ([] :: (bool list, real) heap)) = Inl IndexError"
    by code_simp
  have b: "fst (batch_push (run []) [10] [[True]] [0] [2 :: real] [True, True]) = Inl IndexError"
    by code_simp
  show ?thesis
    using p x b s
      failed_call_state[of "[] :: (bool list, real) heap" IndexError "[]" "[10]" "[[True]]"
        "[0]" "[2 :: real]" "[True, True]"]
    by blast
qed

text \<open>
  C5. \<open>pop\<close> and \<open>extract_best_split_info\<close> raise on the list of a newly constructed
  heap object, and they raise (the \<^verbatim>\<open>IndexError\<close> of \<^verbatim>\<open>list.pop\<close>, which is what the
  specification calls EmptyFrontier) exactly when no candidate is stored; the list is
  left empty.
\<close>

theorem pop_empty_fails:
  "pop (SplitCandidateHeap_init :: ('m, 'g::linorder) heap)
     = (Inl IndexError, SplitCandidateHeap_init) \<and>
   extract_best_split_info (SplitCandidateHeap_init :: ('m, 'g::linorder) heap)
     = (Inl IndexError, SplitCandidateHeap_init) \<and>
   (fst (pop h) = Inl IndexError) = (h = []) \<and>
   (fst (extract_best_split_info h) = Inl IndexError) = (h = [])"
  by (simp add: extract_best_split_info_fst_Inl pop_Inl)
     (simp add: extract_best_split_info_def pop_def heappop_def SplitCandidateHeap_init_def)

text \<open>
  C6. On a manager on which \<^verbatim>\<open>set_devices\<close> has not been called, each of \<^verbatim>\<open>push\<close>,
  \<^verbatim>\<open>batch_push\<close>, \<^verbatim>\<open>extract_best_split_info\<close>, \<^verbatim>\<open>extract_all_nodes\<close> and \<^verbatim>\<open>reset\<close>
  raises (the \<^verbatim>\<open>AttributeError\<close> of a method call on \<^verbatim>\<open>None\<close>, which is what the
  specification calls NotInitialized) and leaves the manager as it was.
\<close>

theorem manager_unbound_fails:
  "heap (SplitCandidateManager_init :: ('d, 'm, 'g::linorder) SplitCandidateManager) = None \<and>
   manager_push (SplitCandidateManager_init :: ('d, 'm, 'g) SplitCandidateManager) ni ss mg sb
     = (Inl AttributeError, SplitCandidateManager_init) \<and>
   manager_batch_push (SplitCandidateManager_init :: ('d, 'm, 'g) SplitCandidateManager)
       nis sss sbs mgs effs
     = (Inl AttributeError, SplitCandidateManager_init) \<and>
   manager_extract_best_split_info
       (SplitCandidateManager_init :: ('d, 'm, 'g) SplitCandidateManager)
     = (Inl AttributeError, SplitCandidateManager_init) \<and>
   manager_extract_all_nodes (SplitCandidateManager_init :: ('d, 'm, 'g) SplitCandidateManager)
     = (Inl AttributeError, SplitCandidateManager_init) \<and>
   manager_reset (SplitCandidateManager_init :: ('d, 'm, 'g) SplitCandidateManager)
     = (Inl AttributeError, SplitCandidateManager_init)"
  by (simp add: SplitCandidateManager_init_def manager_push_def manager_batch_push_def
        manager_extract_best_split_info_def manager_extract_all_nodes_def manager_reset_def)

text \<open>
  C7. \<open>extract_all_nodes\<close> returns the pair (node index, sample selects) of every
  stored candidate, each as often as it is stored, and leaves the list empty, so that
  a following \<open>pop\<close> raises and a following \<open>extract_all_nodes\<close> returns two empty
  lists. After pushing the records \<open>recs\<close> onto a new heap object it returns exactly
  their pairs.
\<close>

theorem extract_all_nodes_exact:
  "snd (extract_all_nodes h) = [] \<and>
   length (fst (fst (extract_all_nodes h))) = length h \<and>
   length (snd (fst (extract_all_nodes h))) = length h \<and>
   mset (zip (fst (fst (extract_all_nodes h))) (snd (fst (extract_all_nodes h))))
     = image_mset (\<lambda>c. (node_index c, sample_selects (info c))) (mset h) \<and>
   fst (pop (snd (extract_all_nodes h))) = Inl IndexError \<and>
   extract_all_nodes (snd (extract_all_nodes h)) = (([], []), []) \<and>
   mset (zip (fst (fst (extract_all_nodes
                          (run (map (\<lambda>(ni, ss, mg, sb). Push ni ss mg sb) recs)))))
             (snd (fst (extract_all_nodes
                          (run (map (\<lambda>(ni, ss, mg, sb). Push ni ss mg sb) recs))))))
     = mset (map (\<lambda>(ni, ss, mg, sb). (ni, ss)) recs)"
proof -
  have a: "snd (extract_all_nodes h) = []" for h :: "('m, 'g) heap"
    by (simp add: extract_all_nodes_def)
  have "image_mset (\<lambda>c. (node_index c, sample_selects (info c)))
          (mset (map (\<lambda>(ni, ss, mg, sb). SplitCandidate_init ni ss mg sb) recs))
        = mset (map (\<lambda>(ni, ss, mg, sb). (ni, ss)) recs)"
    by (induction recs) (auto simp: SplitCandidate_init_def)
  then have r: "image_mset (\<lambda>c. (node_index c, sample_selects (info c)))
          (mset (run (map (\<lambda>(ni, ss, mg, sb). Push ni ss mg sb) recs)))
        = mset (map (\<lambda>(ni, ss, mg, sb). (ni, ss)) recs)"
    by (simp add: run_def foldl_call_Push_mset SplitCandidateHeap_init_def)
  show ?thesis
    unfolding extract_all_nodes_zip a
    using r by (simp add: pop_Inl) (simp add: extract_all_nodes_def)
qed

text \<open>
  C8. \<open>reset\<close> leaves the empty list whatever was stored, also after any history of
  calls; on the empty list it changes nothing, and twice is the same as once. It returns
  nothing but the new state.
\<close>

theorem reset_idempotent:
  "reset h = [] \<and> reset (reset h) = reset h \<and> reset [] = [] \<and>
   run (calls @ [Reset]) = SplitCandidateHeap_init \<and>
   run (calls @ [Reset, Reset]) = run (calls @ [Reset])"
  by (simp add: reset_def run_def SplitCandidateHeap_init_def)

text \<open>
  C9. For a fixed collection of rows, the order in which \<^verbatim>\<open>batch_push\<close> receives and
  inserts them does not change what popping until empty observes: the sequence of gains
  is the same, that is, the sequences of candidates agree position by position up to
  \<^verbatim>\<open>__eq__\<close> (equality of gains, the only thing the ordering looks at). When the
  stored gains are pairwise different the sequences of candidates are the same.
\<close>

theorem pop_order_determined_by_gains:
  assumes "mset rows = mset rows'"
  shows "map gain (drain (snd (batch_push_rows (run calls) rows)))
         = map gain (drain (snd (batch_push_rows (run calls) rows'))) \<and>
    list_all2 SplitCandidate_eq (drain (snd (batch_push_rows (run calls) rows)))
      (drain (snd (batch_push_rows (run calls) rows'))) \<and>
    (distinct (map gain (drain (snd (batch_push_rows (run calls) rows)))) \<longrightarrow>
       drain (snd (batch_push_rows (run calls) rows))
       = drain (snd (batch_push_rows (run calls) rows')))"
proof -
  let ?F = "\<lambda>(ni, ss, sb, mg, e). SplitCandidate_init ni ss mg sb"
  let ?P = "\<lambda>(ni, ss, sb, mg, e). e"
  note A = batch_push_rows_spec[OF run_heap_inv, of calls rows]
  note B = batch_push_rows_spec[OF run_heap_inv, of calls rows']
  have "mset (map ?F (filter ?P rows)) = mset (map ?F (filter ?P rows'))"
    using assms by simp
  then have m: "mset (snd (batch_push_rows (run calls) rows))
              = mset (snd (batch_push_rows (run calls) rows'))"
    using A B by simp
  have i1: "heap_inv (snd (batch_push_rows (run calls) rows))" using A by (rule conjunct1)
  have i2: "heap_inv (snd (batch_push_rows (run calls) rows'))" using B by (rule conjunct1)
  have g: "map gain (drain (snd (batch_push_rows (run calls) rows)))
         = map gain (drain (snd (batch_push_rows (run calls) rows')))"
    using i1 i2 m by (rule drain_gains_determined)
  have "list_all2 (\<lambda>x y. gain x = gain y) (drain (snd (batch_push_rows (run calls) rows)))
      (drain (snd (batch_push_rows (run calls) rows')))"
    using g by (simp add: list_all2_conv_all_nth map_equality_iff)
  then have e: "list_all2 SplitCandidate_eq (drain (snd (batch_push_rows (run calls) rows)))
      (drain (snd (batch_push_rows (run calls) rows')))"
    by (simp add: SplitCandidate_eq_def[abs_def])
  show ?thesis
    using g e drain_determined_distinct[OF i1 i2 m] by blast
qed

theorem pop_order_determined_by_gains_witness:
  "mset [(1 :: int, [True], 0 :: int, 1 :: real, True), (2, [False], 0, 2, True),
         (3, [True], 0, 5, False)]
     = mset [(3, [True], 0, 5, False), (2, [False], 0, 2, True), (1, [True], 0, 1, True)] \<and>
   drain (snd (batch_push_rows (run [])
      [(1 :: int, [True], 0 :: int, 1 :: real, True), (2, [False], 0, 2, True),
       (3, [True], 0, 5, False)]))
   = drain (snd (batch_push_rows (run [])
      [(3, [True], 0, 5, False), (2, [False], 0, 2, True), (1, [True], 0, 1, True)])) \<and>
   map gain (drain (snd (batch_push_rows (run [])
      [(1 :: int, [True], 0 :: int, 1 :: real, True), (2, [False], 0, 2, True),
       (3, [True], 0, 5, False)]))) = [2, 1]"
proof -
  let ?rows = "[(1 :: int, [True], 0 :: int, 1 :: real, True), (2, [False], 0, 2, True),
                (3, [True], 0, 5, False)]"
  let ?rows' = "[(3 :: int, [True], 0 :: int, 5 :: real, False), (2, [False], 0, 2, True),
                 (1, [True], 0, 1, True)]"
  have m: "mset ?rows = mset ?rows'" by simp
  have g: "map gain (drain (snd (batch_push_rows (run []) ?rows))) = [2, 1]" by code_simp
  have d: "distinct (map gain (drain (snd (batch_push_rows (run []) ?rows))))"
    unfolding g by simp
  show ?thesis
    using m g d pop_order_determined_by_gains[OF m, of "[]"] by blast
qed

text \<open>
  C10. The two lists that \<open>extract_all_nodes\<close> returns have the length of the stored
  list, and at every index the node index and the sample selects are those of the
  stored candidate at that index.
\<close>

theorem extract_all_nodes_positional:
  "extract_all_nodes h = ((ids, sels), h') \<Longrightarrow>
   length ids = length sels \<and> length ids = length h \<and>
   (\<forall>i < length ids. ids ! i = node_index (h ! i) \<and> sels ! i = sample_selects (info (h ! i)))"
  by (auto simp: extract_all_nodes_def)

theorem extract_all_nodes_positional_witness:
  "extract_all_nodes [SplitCandidate_init 2 [False, True] (3 / 2 :: real) 1,
                      SplitCandidate_init 1 [True, False] (4 / 5) 3]
     = (([2, 1], [[False, True], [True, False]]), []) \<and>
   length [2 :: int, 1] = length [[False, True], [True, False]] \<and>
   [2 :: int, 1] ! 1
     = node_index ([SplitCandidate_init 2 [False, True] (3 / 2 :: real) 1,
                    SplitCandidate_init 1 [True, False] (4 / 5) 3] ! 1) \<and>
   [[False, True], [True, False]] ! 1
     = sample_selects (info ([SplitCandidate_init 2 [False, True] (3 / 2 :: real) 1,
                              SplitCandidate_init 1 [True, False] (4 / 5) 3] ! 1))"
proof -
  let ?h = "[SplitCandidate_init 2 [False, True] (3 / 2 :: real) 1,
             SplitCandidate_init 1 [True, False] (4 / 5) 3]"
  have e: "extract_all_nodes ?h = (([2, 1], [[False, True], [True, False]]), [])"
    by (simp add: extract_all_nodes_def SplitCandidate_init_def)
  have i: "(1::nat) < length [2 :: int, 1]" by simp
  show ?thesis using e i extract_all_nodes_positional[OF e] by blast
qed

end
